theory Spec2Isabelle
  imports Main "HOL-Library.Word" "HOL-Library.Stream"
begin

unbundle bit_operations_syntax

section \<open>Exceptions of the program\<close>

text \<open>
  The Python exceptions the modelled functions can raise: \<open>ValueError\<close> is raised
  explicitly by \<open>mod_inv\<close> and by \<open>randint\<close> on an empty range,
  \<open>ZeroDivisionError\<close> by \<open>%\<close>, \<open>//\<close> and \<open>divmod\<close> on a zero divisor.
  A result is \<open>Inl\<close> of the exception or \<open>Inr\<close> of the returned value.
\<close>

datatype error = ValueError | ZeroDivisionError

section \<open>Extended Euclid and the modular inverse\<close>

text \<open>
  The loop of \<open>extended_gcd\<close>:
  \<^verbatim>\<open>
    while remainder:
        last_remainder, (quotient, remainder) = remainder, divmod(last_remainder, remainder)
        x, last_x = last_x - quotient * x, x
        y, last_y = last_y - quotient * y, y
  \<close>
  Python's \<open>divmod\<close> on integers is floor division, as \<open>div\<close> and \<open>mod\<close> on \<open>int\<close>;
  the divisor is nonzero inside the loop.
\<close>

function egcd_loop :: "int \<Rightarrow> int \<Rightarrow> int \<Rightarrow> int \<Rightarrow> int \<Rightarrow> int \<Rightarrow> int \<times> int \<times> int" where
  "egcd_loop last_remainder remainder x last_x y last_y =
     (if remainder \<noteq> 0 then
        (let quotient = last_remainder div remainder
         in egcd_loop remainder (last_remainder mod remainder)
              (last_x - quotient * x) x (last_y - quotient * y) y)
      else (last_remainder, last_x, last_y))"
  by pat_completeness auto
termination
  by (relation "measure (\<lambda>(lr, r, x, lx, y, ly). nat \<bar>r\<bar>)") (auto simp: abs_mod_less)

declare egcd_loop.simps [simp del]

definition extended_gcd :: "int \<Rightarrow> int \<Rightarrow> int \<times> int \<times> int" where
  "extended_gcd a0 b0 =
     (case egcd_loop \<bar>a0\<bar> \<bar>b0\<bar> 0 1 1 0 of
        (last_remainder, last_x, last_y) \<Rightarrow>
          (last_remainder,
           last_x * (if a0 < 0 then - 1 else 1),
           last_y * (if b0 < 0 then - 1 else 1)))"

definition mod_inv :: "int \<Rightarrow> int \<Rightarrow> error + int" where
  "mod_inv a m =
     (case extended_gcd a m of
        (g, x, y) \<Rightarrow>
          if g \<noteq> 1 then Inl ValueError
          else if m = 0 then Inl ZeroDivisionError
          else Inr (x mod m))"

section \<open>Square-and-multiply modular exponentiation\<close>

text \<open>
  The loop of \<open>mod_exp_55\<close>, on the loop variables \<open>b\<close>, \<open>ex\<close> and \<open>res\<close>:
  \<^verbatim>\<open>
    while ex > 0:
        if not ex & 1:
            b = (b * b) % modulo
            ex //= 2
        else:
            res = (b * res) % modulo
            ex -= 1
    return res
  \<close>
  The parameter \<open>modulo\<close> is written \<open>modulus\<close> here. \<open>%\<close> on integers is the
  floor modulus, as \<open>mod\<close> on \<open>int\<close>, except that a zero modulus raises.
\<close>

function mod_exp_loop :: "int \<Rightarrow> int \<Rightarrow> int \<Rightarrow> int \<Rightarrow> error + int" where
  "mod_exp_loop b ex res modulus =
     (if ex > 0 then
        (if ex AND 1 = 0 then
           (if modulus = 0 then Inl ZeroDivisionError
            else mod_exp_loop ((b * b) mod modulus) (ex div 2) res modulus)
         else
           (if modulus = 0 then Inl ZeroDivisionError
            else mod_exp_loop b (ex - 1) ((b * res) mod modulus) modulus))
      else Inr res)"
  by pat_completeness auto
termination
  by (relation "measure (\<lambda>(b, ex, res, modulus). nat ex)") auto

declare mod_exp_loop.simps [simp del]

definition mod_exp_55 :: "int \<Rightarrow> int \<Rightarrow> int \<Rightarrow> error + int" where
  "mod_exp_55 message exponent modulus =
     (if exponent \<le> 0 then Inr 1
      else mod_exp_loop message exponent 1 modulus)"

definition rsa :: "int \<Rightarrow> int \<Rightarrow> int \<Rightarrow> error + int" where
  "rsa n e message = mod_exp_55 message e n"

section \<open>The text codec\<close>

text \<open>
  \<open>decode\<close> returns the list \<open>[0]\<close> for \<open>n = 0\<close> and a string otherwise; the two
  shapes of its result are the two constructors of \<open>decoded\<close>. Every caller leaves the
  base \<open>b\<close> at its default, so the model fixes \<open>b = 26\<close>; then \<open>n % b + 97\<close> is a code
  point between 97 and 122 and \<open>chr\<close> is \<open>char_of\<close>.

  The loop \<open>while n: chars.append(chr(int(n % b) + 97)); n //= b\<close> does not end on a
  negative \<open>n\<close> (floor division never reaches 0 from below), so it is a partial function:
  \<open>None\<close> is "does not return".
\<close>

datatype decoded = PyList "int list" | PyStr string

partial_function (option) decode_loop :: "int \<Rightarrow> string \<Rightarrow> string option" where
  "decode_loop n chars =
     (if n \<noteq> 0 then decode_loop (n div 26) (chars @ [char_of (n mod 26 + 97)])
      else Some chars)"

declare decode_loop.simps [code]

definition decode :: "int \<Rightarrow> decoded option" where
  "decode n =
     (if n = 0 then Some (PyList [0])
      else (case decode_loop n [] of
              None \<Rightarrow> None
            | Some chars \<Rightarrow> Some (PyStr (rev chars))))"

text \<open>
  \<open>str.lower\<close> on the characters of the model (bytes, read as ASCII): the capital
  letters move to the small ones, every other character stays.
\<close>

definition lower :: "string \<Rightarrow> string" where
  "lower message =
     map (\<lambda>c. if 65 \<le> (of_char c :: nat) \<and> (of_char c :: nat) \<le> 90
              then char_of ((of_char c :: nat) + 32) else c) message"

text \<open>
  The second loop of \<open>encode\<close>, on \<open>m_num\<close> and \<open>m_len\<close>:
  \<open>for i in m_list: m_num += (i * (b ** m_len)); m_len -= 1\<close>. The exponent \<open>m_len\<close>
  starts at \<open>len(m_list) - 1\<close> and is 0 at the last element, so \<open>b ** m_len\<close> is an
  integer power each time it is computed.
\<close>

fun encode_loop :: "int list \<Rightarrow> int \<Rightarrow> int \<Rightarrow> int" where
  "encode_loop [] m_num m_len = m_num"
| "encode_loop (i # m_list) m_num m_len =
     encode_loop m_list (m_num + i * 26 ^ nat m_len) (m_len - 1)"

definition encode :: "string \<Rightarrow> int" where
  "encode message =
     (let m_list = map (\<lambda>c. (of_char c :: int) - 97) (lower message)
      in encode_loop m_list 0 (int (length m_list) - 1))"

section \<open>The random source\<close>

text \<open>
  The program draws from Python's global generator. The model passes the generator
  explicitly, as the stream of raw values it will produce; each call consumes one value
  and reduces it into the requested range, so that every value of the range can be drawn.
  \<open>randint(a, b)\<close> raises \<open>ValueError\<close> on an empty range.
\<close>

type_synonym rng = "int stream"

definition randint :: "int \<Rightarrow> int \<Rightarrow> rng \<Rightarrow> error + (int \<times> rng)" where
  "randint a b s =
     (if b < a then Inl ValueError
      else Inr (a + shd s mod (b - a + 1), stl s))"

definition getrandbits :: "nat \<Rightarrow> rng \<Rightarrow> int \<times> rng" where
  "getrandbits k s = (shd s mod 2 ^ k, stl s)"

section \<open>Miller-Rabin\<close>

text \<open>
  The built-in \<open>pow(x, y, z)\<close> at the places \<open>check\<close> calls it: the exponent is
  non-negative and the modulus is not 0 there (see \<open>miller_rabin\<close>: a witness is drawn
  only when \<open>n - 1 \<ge> 2\<close>).
\<close>

definition pow_mod :: "int \<Rightarrow> int \<Rightarrow> int \<Rightarrow> int" where
  "pow_mod x y z = x ^ nat y mod z"

text \<open>
  The loop of \<open>check\<close> with its final \<open>return\<close>; the first argument is the number of
  iterations of \<open>for j in range(k_check - 1)\<close> still to run.
\<close>

fun check_loop :: "nat \<Rightarrow> int \<Rightarrow> int \<Rightarrow> bool" where
  "check_loop 0 x num = (x = num - 1)"
| "check_loop (Suc j) x num =
     (if x = num - 1 then True else check_loop j (pow_mod x 2 num) num)"

definition check :: "int \<Rightarrow> int \<Rightarrow> int \<Rightarrow> int \<Rightarrow> bool" where
  "check a_check k_check num_sub num =
     (let x = pow_mod a_check num_sub num
      in if x = 1 then True else check_loop (nat (k_check - 1)) x num)"

text \<open>
  \<open>while n_sub % 2 == 0: n_sub >>= 1; k += 1\<close>. On \<open>n_sub = 0\<close> the loop never ends.
\<close>

partial_function (option) mr_decompose :: "int \<Rightarrow> int \<Rightarrow> (int \<times> int) option" where
  "mr_decompose n_sub k =
     (if n_sub mod 2 = 0 then mr_decompose (drop_bit 1 n_sub) (k + 1)
      else Some (n_sub, k))"

declare mr_decompose.simps [code]

text \<open>The \<open>t\<close> rounds, \<open>for i in range(t)\<close>; the first argument counts the rounds left.\<close>

fun mr_rounds :: "nat \<Rightarrow> int \<Rightarrow> int \<Rightarrow> int \<Rightarrow> rng \<Rightarrow> error + (bool \<times> rng)" where
  "mr_rounds 0 n k n_sub s = Inr (True, s)"
| "mr_rounds (Suc i) n k n_sub s =
     (case randint 2 (n - 1) s of
        Inl e \<Rightarrow> Inl e
      | Inr (a, s') \<Rightarrow>
          if \<not> check a k n_sub n then Inr (False, s')
          else mr_rounds i n k n_sub s')"

definition miller_rabin :: "int \<Rightarrow> int \<Rightarrow> rng \<Rightarrow> (error + (bool \<times> rng)) option" where
  "miller_rabin n t s =
     (case mr_decompose (n - 1) 0 of
        None \<Rightarrow> None
      | Some (n_sub, k) \<Rightarrow> Some (mr_rounds (nat t) n k n_sub s))"

section \<open>Prime and key generation\<close>

text \<open>
  \<open>get_prime\<close> returns \<open>False\<close> or the candidate: \<open>None\<close> stands for \<open>False\<close>.
  \<open>py_not\<close> is Python's \<open>not\<close> on such a value (\<open>False\<close> and \<open>0\<close> are falsy).
\<close>

definition get_prime :: "rng \<Rightarrow> (error + (int option \<times> rng)) option" where
  "get_prime s =
     (case getrandbits 512 s of
        (n0, s1) \<Rightarrow>
          (let n = (if n0 AND 1 = 0 then n0 + 1 else n0)
           in case miller_rabin n 10 s1 of
                None \<Rightarrow> None
              | Some (Inl e) \<Rightarrow> Some (Inl e)
              | Some (Inr (ok, s2)) \<Rightarrow>
                  Some (Inr (if \<not> ok then None else Some n, s2))))"

definition py_not :: "int option \<Rightarrow> bool" where
  "py_not p = (case p of None \<Rightarrow> True | Some v \<Rightarrow> v = 0)"

text \<open>\<open>while not p: p = get_prime()\<close>, returning the value the loop ends with.\<close>

partial_function (option) retry_prime :: "int option \<Rightarrow> rng \<Rightarrow> (error + (int \<times> rng)) option" where
  "retry_prime p s =
     (if py_not p then
        (case get_prime s of
           None \<Rightarrow> None
         | Some (Inl e) \<Rightarrow> Some (Inl e)
         | Some (Inr (p', s')) \<Rightarrow> retry_prime p' s')
      else Some (Inr (the p, s)))"

declare retry_prime.simps [code]

text \<open>
  The first part of \<open>key_gen\<close>, up to the two primes:
  \<^verbatim>\<open>
    p = get_prime()
    q = get_prime()
    while not p:
        p = get_prime()
    while not q:
        q = get_prime()
  \<close>
\<close>

definition key_gen_primes :: "rng \<Rightarrow> (error + (int \<times> int \<times> rng)) option" where
  "key_gen_primes s =
     (case get_prime s of
        None \<Rightarrow> None
      | Some (Inl e) \<Rightarrow> Some (Inl e)
      | Some (Inr (p0, s1)) \<Rightarrow>
          (case get_prime s1 of
             None \<Rightarrow> None
           | Some (Inl e) \<Rightarrow> Some (Inl e)
           | Some (Inr (q0, s2)) \<Rightarrow>
               (case retry_prime p0 s2 of
                  None \<Rightarrow> None
                | Some (Inl e) \<Rightarrow> Some (Inl e)
                | Some (Inr (p, s3)) \<Rightarrow>
                    (case retry_prime q0 s3 of
                       None \<Rightarrow> None
                     | Some (Inl e) \<Rightarrow> Some (Inl e)
                     | Some (Inr (q, s4)) \<Rightarrow> Some (Inr (p, q, s4))))))"

text \<open>
  \<open>key_gen\<close>: the public key \<open>(n, b)\<close> and the private key \<open>(p, q, a)\<close>, with
  \<open>a = mod_inv(b, phi)\<close> computed once; an exception of \<open>mod_inv\<close> is not caught.
\<close>

definition key_gen :: "rng \<Rightarrow> (error + (((int \<times> int) \<times> (int \<times> int \<times> int)) \<times> rng)) option" where
  "key_gen s =
     (let b = 65537
      in case key_gen_primes s of
           None \<Rightarrow> None
         | Some (Inl e) \<Rightarrow> Some (Inl e)
         | Some (Inr (p, q, s')) \<Rightarrow>
             (let n = p * q;
                  public_key = (n, b);
                  phi = (p - 1) * (q - 1)
              in case mod_inv b phi of
                   Inl e \<Rightarrow> Some (Inl e)
                 | Inr a \<Rightarrow> Some (Inr ((public_key, (p, q, a)), s'))))"

section \<open>Notions the properties are stated with\<close>

text \<open>Primality of an integer, by trial division.\<close>

definition is_prime :: "int \<Rightarrow> bool" where
  "is_prime p = (1 < p \<and> (\<forall>d \<in> {2..<p}. \<not> d dvd p))"

text \<open>A string of the lowercase letters \<open>a\<close> to \<open>z\<close> (code points 97 to 122).\<close>

definition lowercase :: "string \<Rightarrow> bool" where
  "lowercase s = (\<forall>c \<in> set s. 97 \<le> (of_char c :: nat) \<and> (of_char c :: nat) \<le> 122)"

text \<open>
  The value of a list of base-26 digits, most significant digit first (Horner's rule);
  the proofs about the codec compare both directions with it.
\<close>

definition base26 :: "int list \<Rightarrow> int" where
  "base26 ds = foldl (\<lambda>a d. 26 * a + d) 0 ds"

section \<open>Extended Euclid: the loop invariant\<close>

text \<open>
  Both remainders stay combinations of the two start values with the tracked
  coefficients, and their gcd does not change.
\<close>

lemma egcd_loop_inv:
  "0 \<le> lr \<Longrightarrow> 0 \<le> r \<Longrightarrow> lr = A * lx + B * ly \<Longrightarrow> r = A * x + B * y \<Longrightarrow>
   egcd_loop lr r x lx y ly = (g, u, v) \<Longrightarrow> g = A * u + B * v \<and> g = gcd lr r"
proof (induction lr r x lx y ly rule: egcd_loop.induct)
  case (1 lr r x lx y ly)
  show ?case
  proof (cases "r = 0")
    case True
    with "1.prems" show ?thesis by (auto simp add: egcd_loop.simps)
  next
    case False
    define q where "q = lr div r"
    have step: "egcd_loop r (lr mod r) (lx - q * x) x (ly - q * y) y = (g, u, v)"
      using "1.prems"(5) False by (subst (asm) egcd_loop.simps) (simp add: q_def Let_def)
    have rpos: "0 < r" using False "1.prems"(2) by simp
    have m: "lr mod r = A * (lx - q * x) + B * (ly - q * y)"
    proof -
      have "lr mod r = lr - q * r" by (simp add: q_def minus_div_mult_eq_mod [symmetric])
      also have "\<dots> = A * (lx - q * x) + B * (ly - q * y)"
        using "1.prems"(3,4) by (simp add: algebra_simps)
      finally show ?thesis .
    qed
    have "g = A * u + B * v \<and> g = gcd r (lr mod r)"
      using "1.IH"[OF False q_def _ _ _ m step] rpos "1.prems"(4) by simp
    then show ?thesis by (simp add: gcd.commute gcd_red_int[symmetric])
  qed
qed

lemma extended_gcd_abs:
  assumes "egcd_loop \<bar>a\<bar> \<bar>b\<bar> 0 1 1 0 = (g, u, v)"
  shows "g = \<bar>a\<bar> * u + \<bar>b\<bar> * v \<and> g = gcd \<bar>a\<bar> \<bar>b\<bar>"
  using egcd_loop_inv [of "\<bar>a\<bar>" "\<bar>b\<bar>" "\<bar>a\<bar>" 1 "\<bar>b\<bar>" 0 0 1 g u v] assms by simp

text \<open>The sign correction turns the identity for the absolute values into the one
  for the inputs.\<close>

lemma extended_gcd_correct:
  "(case extended_gcd a b of
      (g, x, y) \<Rightarrow> g = gcd \<bar>a\<bar> \<bar>b\<bar> \<and> a * x + b * y = g)"
proof -
  obtain g u v where e: "egcd_loop \<bar>a\<bar> \<bar>b\<bar> 0 1 1 0 = (g, u, v)"
    by (metis prod_cases3)
  from extended_gcd_abs [OF e] have g: "g = \<bar>a\<bar> * u + \<bar>b\<bar> * v" "g = gcd \<bar>a\<bar> \<bar>b\<bar>"
    by simp_all
  have "a * (u * (if a < 0 then - 1 else 1)) = \<bar>a\<bar> * u"
    and "b * (v * (if b < 0 then - 1 else 1)) = \<bar>b\<bar> * v"
    by (simp_all add: abs_if)
  with g show ?thesis
    by (simp add: extended_gcd_def e)
qed

text \<open>
  Claim C7. For all integers \<open>a\<close> and \<open>b\<close>, \<open>extended_gcd a b\<close> returns a triple
  \<open>(g, x, y)\<close> with \<open>g = gcd \<bar>a\<bar> \<bar>b\<bar>\<close> and \<open>a * x + b * y = g\<close>: the Bezout identity
  holds for the signed inputs.
\<close>

theorem extended_gcd_bezout:
  "(case extended_gcd a b of
      (g, x, y) \<Rightarrow> g = gcd \<bar>a\<bar> \<bar>b\<bar> \<and> a * x + b * y = g)"
  by (rule extended_gcd_correct)

section \<open>The modular inverse\<close>

lemma mod_inv_coprime:
  assumes "0 < m" "gcd a m = 1"
  shows "\<exists>r. mod_inv a m = Inr r \<and> 0 \<le> r \<and> r < m \<and> (a * r) mod m = 1 mod m"
proof -
  obtain g x y where e: "extended_gcd a m = (g, x, y)" by (metis prod_cases3)
  from extended_gcd_correct [of a m] e have g: "g = gcd \<bar>a\<bar> \<bar>m\<bar>" "a * x + m * y = g"
    by simp_all
  from g(1) assms have g1: "g = 1" by simp
  have "(a * (x mod m)) mod m = (a * x) mod m" by (simp add: mod_mult_right_eq)
  also have "\<dots> = (a * x + m * y) mod m" by simp
  also have "\<dots> = 1 mod m" using g(2) g1 by simp
  finally have "(a * (x mod m)) mod m = 1 mod m" .
  moreover have "mod_inv a m = Inr (x mod m)" using e g1 assms by (simp add: mod_inv_def)
  ultimately show ?thesis using assms(1) by simp
qed

lemma mod_inv_not_coprime:
  assumes "gcd a m \<noteq> 1"
  shows "mod_inv a m = Inl ValueError"
proof -
  obtain g x y where e: "extended_gcd a m = (g, x, y)" by (metis prod_cases3)
  from extended_gcd_correct [of a m] e have "g = gcd \<bar>a\<bar> \<bar>m\<bar>" by simp
  with assms have "g \<noteq> 1" by simp
  then show ?thesis using e by (simp add: mod_inv_def)
qed

text \<open>
  Claim C3, amended. For all integers \<open>a\<close> and \<open>m\<close> with \<open>m > 0\<close>: when \<open>gcd a m = 1\<close>,
  \<open>mod_inv a m\<close> returns a value \<open>r\<close> in \<open>[0, m)\<close> with \<open>a * r\<close> congruent to 1 modulo
  \<open>m\<close> (that is \<open>(a * r) mod m = 1 mod m\<close>, which is 1 for \<open>m > 1\<close> and 0 for \<open>m = 1\<close>);
  otherwise it raises \<open>ValueError\<close>, the exception the specification calls
  NoInverseError.
\<close>

theorem mod_inv_spec:
  "0 < m \<Longrightarrow>
   (if gcd a m = 1
    then (\<exists>r. mod_inv a m = Inr r \<and> 0 \<le> r \<and> r < m \<and> (a * r) mod m = 1 mod m)
    else mod_inv a m = Inl ValueError)"
  using mod_inv_coprime [of m a] mod_inv_not_coprime [of a m] by simp

theorem mod_inv_spec_witness:
  "(0::int) < 3120 \<and> gcd (17::int) 3120 = 1 \<and>
   (\<exists>r. mod_inv 17 3120 = Inr r \<and> 0 \<le> r \<and> r < 3120 \<and> (17 * r) mod 3120 = 1 mod 3120) \<and>
   (0::int) < 8 \<and> gcd (4::int) 8 \<noteq> 1 \<and> mod_inv 4 8 = Inl ValueError"
proof -
  have g1: "gcd (17::int) 3120 = 1" by code_simp
  have g2: "gcd (4::int) 8 \<noteq> 1" by code_simp
  show ?thesis
    using mod_inv_spec [of 3120 17] mod_inv_spec [of 8 4] g1 g2 by simp
qed

text \<open>
  As stated, with \<open>(a * r) mod m = 1\<close>, the claim fails at the modulus 1: the only value
  in \<open>[0, 1)\<close> is 0, and \<open>mod_inv 5 1\<close> returns it.
\<close>

theorem mod_inv_modulus_one_counterexample:
  "(0::int) < 1 \<and> gcd (5::int) 1 = 1 \<and> mod_inv 5 1 = Inr 0 \<and> (5 * 0) mod 1 \<noteq> (1::int)"
  by (simp add: mod_inv_def extended_gcd_def egcd_loop.simps)

section \<open>Modular exponentiation: what the loop computes\<close>

text \<open>
  With a nonzero modulus and a positive exponent the loop returns
  \<open>b ^ ex * res\<close> reduced by the modulus: the product \<open>b ^ ex * res\<close> is the same,
  modulo the modulus, before and after every iteration.
\<close>

lemma mod_exp_loop_correct:
  "modulus \<noteq> 0 \<Longrightarrow> 0 < ex \<Longrightarrow>
   mod_exp_loop b ex res modulus = Inr ((b ^ nat ex * res) mod modulus)"
proof (induction b ex res modulus rule: mod_exp_loop.induct)
  case (1 b ex res m)
  show ?case
  proof (cases "ex AND 1 = 0")
    case True
    then have ev: "even ex" by (simp add: and_one_eq even_iff_mod_2_eq_zero)
    with "1.prems" have half: "0 < ex div 2" by presburger
    have n: "nat ex = 2 * nat (ex div 2)" using ev "1.prems" by (auto elim: evenE)
    have "mod_exp_loop b ex res m = mod_exp_loop ((b * b) mod m) (ex div 2) res m"
      using "1.prems" True by (subst mod_exp_loop.simps) simp
    also have "\<dots> = Inr ((((b * b) mod m) ^ nat (ex div 2) * res) mod m)"
      using "1.IH"(1) [OF "1.prems"(2) True "1.prems"(1) "1.prems"(1) half] .
    also have "(((b * b) mod m) ^ nat (ex div 2) * res) mod m
                 = ((b * b) ^ nat (ex div 2) * res) mod m"
      by (metis mod_mult_left_eq power_mod)
    also have "(b * b) ^ nat (ex div 2) = b ^ nat ex"
      by (simp add: n power_mult power2_eq_square)
    finally show ?thesis .
  next
    case False
    have unf: "mod_exp_loop b ex res m = mod_exp_loop b (ex - 1) ((b * res) mod m) m"
      using "1.prems" False by (subst mod_exp_loop.simps) simp
    show ?thesis
    proof (cases "ex = 1")
      case True
      then show ?thesis using unf by (simp add: mod_exp_loop.simps)
    next
      case ne: False
      with "1.prems" have pos: "0 < ex - 1" by simp
      have n: "nat ex = Suc (nat (ex - 1))" using "1.prems" by simp
      have "mod_exp_loop b (ex - 1) ((b * res) mod m) m
              = Inr ((b ^ nat (ex - 1) * ((b * res) mod m)) mod m)"
        using "1.IH"(2) [OF "1.prems"(2) False "1.prems"(1) "1.prems"(1) pos] .
      also have "(b ^ nat (ex - 1) * ((b * res) mod m)) mod m
                   = (b ^ nat (ex - 1) * (b * res)) mod m"
        by (simp add: mod_mult_right_eq)
      also have "b ^ nat (ex - 1) * (b * res) = b ^ nat ex * res"
        by (simp add: n)
      finally show ?thesis using unf by simp
    qed
  qed
qed

lemma mod_exp_55_pos:
  "modulus \<noteq> 0 \<Longrightarrow> 0 < ex \<Longrightarrow> mod_exp_55 b ex modulus = Inr (b ^ nat ex mod modulus)"
  by (simp add: mod_exp_55_def mod_exp_loop_correct)

lemma mod_exp_55_nonpos: "ex \<le> 0 \<Longrightarrow> mod_exp_55 b ex modulus = Inr 1"
  by (simp add: mod_exp_55_def)

text \<open>
  Claim C2, amended. For every integer base \<open>b\<close>, every exponent \<open>ex \<ge> 0\<close> and every
  modulus \<open>m > 0\<close>, \<open>mod_exp_55 b ex m\<close> equals \<open>b ^ ex mod m\<close>, except at exponent 0 with
  modulus 1, where it returns 1; the call with exponent 0 returns 1 for every base and
  every modulus \<open>m > 0\<close>, and every call with modulus 1 and a positive exponent returns 0.
\<close>

theorem mod_exp_55_spec:
  "0 < m \<Longrightarrow> 0 \<le> ex \<Longrightarrow>
   mod_exp_55 b ex m = Inr (if ex = 0 \<and> m = 1 then 1 else b ^ nat ex mod m) \<and>
   mod_exp_55 b 0 m = Inr 1 \<and>
   mod_exp_55 b ex 1 = Inr (if ex = 0 then 1 else 0)"
  using mod_exp_55_pos [of m ex b] mod_exp_55_pos [of 1 ex b] mod_exp_55_nonpos [of 0 b]
  by (cases "ex = 0") auto

theorem mod_exp_55_spec_witness:
  "(0::int) < 497 \<and> (0::int) \<le> 13 \<and>
   mod_exp_55 4 13 497 = Inr 445 \<and> mod_exp_55 4 0 497 = Inr 1 \<and> mod_exp_55 4 13 1 = Inr 0"
  using mod_exp_55_spec [of 497 13 4] by simp

text \<open>
  As stated the claim fails at exponent 0 and modulus 1: the routine returns 1 there,
  which is neither \<open>b ^ 0 mod 1 = 0\<close> nor the 0 promised for modulus 1.
\<close>

theorem mod_exp_55_zero_exponent_modulus_one_counterexample:
  "(0::int) \<le> 0 \<and> (0::int) < 1 \<and> mod_exp_55 5 0 1 = Inr 1 \<and> (5::int) ^ nat 0 mod 1 = 0"
  by (simp add: mod_exp_55_def)

text \<open>
  Claim C6, amended. For every base and every modulus, a call of the
  modular-exponentiation routine with a negative exponent returns 1; it raises nothing.
\<close>

theorem mod_exp_55_negative_exponent:
  "ex < 0 \<Longrightarrow> mod_exp_55 b ex m = Inr 1"
  by (simp add: mod_exp_55_def)

theorem mod_exp_55_negative_exponent_witness:
  "(- 3::int) < 0 \<and> mod_exp_55 2 (- 3) 5 = Inr 1"
  using mod_exp_55_negative_exponent [of "- 3" 2 5] by simp

text \<open>
  As stated (a negative exponent fails, no value is returned) the claim fails:
  \<open>mod_exp_55 2 (- 1) 5\<close> returns 1.
\<close>

theorem mod_exp_55_negative_exponent_counterexample:
  "(0::int) < 5 \<and> (- 1::int) < 0 \<and> mod_exp_55 2 (- 1) 5 = Inr 1"
  by (simp add: mod_exp_55_def)

text \<open>
  Claim C5, amended. For every public key \<open>(n, e)\<close> with \<open>n > 0\<close> and every message
  integer \<open>m\<close>, also when \<open>m \<ge> n\<close>, \<open>rsa n e m\<close> returns \<open>mod_exp_55 m e n\<close>, which is
  \<open>m ^ e mod n\<close> for a positive \<open>e\<close>; there is no range check on the message and
  nothing is raised.
\<close>

theorem rsa_no_range_check:
  "0 < n \<Longrightarrow>
   rsa n e m = mod_exp_55 m e n \<and>
   rsa n e m = Inr (if e \<le> 0 then 1 else m ^ nat e mod n)"
  using mod_exp_55_pos [of n e m] mod_exp_55_nonpos [of e m n]
  by (simp add: rsa_def)

theorem rsa_no_range_check_witness:
  "(0::int) < 3233 \<and> rsa 3233 17 5000 = Inr 139"
  using rsa_no_range_check [of 3233 17 5000] by (simp add: rsa_def)

text \<open>
  As stated (a message \<open>m \<ge> n\<close> fails) the claim fails: with the key \<open>(3233, 17)\<close> the
  message 5000 is encrypted to 139.
\<close>

theorem rsa_message_too_large_counterexample:
  "(5000::int) \<ge> 3233 \<and> rsa 3233 17 5000 = Inr 139"
  by (simp add: rsa_def mod_exp_55_def mod_exp_loop.simps)

section \<open>The codec: both directions against the base-26 value\<close>

lemma foldl_base26_shift:
  "foldl (\<lambda>a d. 26 * a + d) a ds = a * 26 ^ length ds + foldl (\<lambda>a d. 26 * a + d) (0::int) ds"
proof -
  define f where "f = (\<lambda>(a::int) d. 26 * a + d)"
  have "foldl f a ds = a * 26 ^ length ds + foldl f 0 ds"
  proof (induction ds arbitrary: a)
    case Nil
    show ?case by simp
  next
    case (Cons d ds)
    have "foldl f (f a d) ds = f a d * 26 ^ length ds + foldl f 0 ds" by (rule Cons.IH)
    moreover have "foldl f (f 0 d) ds = f 0 d * 26 ^ length ds + foldl f 0 ds" by (rule Cons.IH)
    moreover have "f a d = 26 * a + d" "f 0 d = d" by (simp_all add: f_def)
    ultimately show ?case by (simp add: algebra_simps)
  qed
  then show ?thesis by (simp add: f_def)
qed

lemma base26_snoc: "base26 (ds @ [d]) = 26 * base26 ds + d"
  by (simp add: base26_def)

lemma encode_loop_base26:
  "encode_loop ds acc (int (length ds) - 1) = acc + base26 ds"
proof (induction ds arbitrary: acc)
  case Nil
  show ?case by (simp add: base26_def)
next
  case (Cons d ds)
  have "base26 (d # ds) = d * 26 ^ length ds + base26 ds"
    using foldl_base26_shift [of d ds] by (simp add: base26_def)
  then show ?case
    using Cons.IH [of "acc + d * 26 ^ length ds"] by simp
qed

lemma lower_lowercase: "lowercase s \<Longrightarrow> lower s = s"
  by (auto simp: lowercase_def lower_def intro!: map_idI)

lemma encode_lowercase:
  "lowercase s \<Longrightarrow> encode s = base26 (map (\<lambda>c. of_char c - 97) s)"
  using encode_loop_base26 [of "map (\<lambda>c. of_char c - 97) s" 0]
  by (simp add: encode_def Let_def lower_lowercase)

lemma letter_code_bounds:
  assumes "97 \<le> (of_char c :: nat)" "(of_char c :: nat) \<le> 122"
  shows "0 \<le> (of_char c :: int) - 97" and "(of_char c :: int) - 97 < 26"
proof -
  have "(of_char c :: int) = int (of_char c)" by (simp add: of_nat_of_char)
  with assms show "0 \<le> (of_char c :: int) - 97" and "(of_char c :: int) - 97 < 26"
    by linarith+
qed

lemma code_letter_bounds:
  assumes "0 \<le> k" "k < 26"
  shows "97 \<le> (of_char (char_of (k + 97 :: int)) :: nat)"
    and "(of_char (char_of (k + 97 :: int)) :: nat) \<le> 122"
    and "(of_char (char_of (k + 97 :: int)) :: int) - 97 = k"
proof -
  have i: "(of_char (char_of (k + 97 :: int)) :: int) = k + 97"
    using assms by simp
  then show "(of_char (char_of (k + 97 :: int)) :: int) - 97 = k" by simp
  have "int (of_char (char_of (k + 97 :: int)) :: nat) = k + 97"
    using i by (simp add: of_nat_of_char)
  with assms show "97 \<le> (of_char (char_of (k + 97 :: int)) :: nat)"
    and "(of_char (char_of (k + 97 :: int)) :: nat) \<le> 122" by linarith+
qed


text \<open>
  The loop of \<open>decode\<close> returns on every non-negative number: on a positive \<open>n\<close> it
  yields the letters of a string without a leading \<open>a\<close> whose base-26 value is \<open>n\<close>, and on
  the value of such a string it yields that string.
\<close>

lemma decode_loop_zero: "decode_loop 0 chars = Some chars"
  by (subst decode_loop.simps) simp

lemma decode_loop_step:
  "n \<noteq> 0 \<Longrightarrow> decode_loop n chars = decode_loop (n div 26) (chars @ [char_of (n mod 26 + 97)])"
  by (subst decode_loop.simps) simp

lemma letter_a_code: "((of_char c :: int) = 97) = (c = CHR ''a'')"
proof -
  have "(of_char c :: int) = of_char CHR ''a'' \<longleftrightarrow> c = CHR ''a''" by (rule of_char_eq_iff)
  then show ?thesis by simp
qed

lemma lowercase_append: "lowercase (xs @ ys) = (lowercase xs \<and> lowercase ys)"
  by (auto simp: lowercase_def)

lemma decode_loop_encoded:
  "lowercase s \<Longrightarrow> s \<noteq> [] \<Longrightarrow> hd s \<noteq> CHR ''a'' \<Longrightarrow>
   0 < base26 (map (\<lambda>c. of_char c - 97) s) \<and>
   decode_loop (base26 (map (\<lambda>c. of_char c - 97) s)) chars = Some (chars @ rev s)"
proof (induction s arbitrary: chars rule: rev_induct)
  case Nil
  then show ?case by simp
next
  case (snoc x xs)
  define cx where "cx = (of_char x :: int) - 97"
  define B where "B = base26 (map (\<lambda>c. of_char c - 97) xs)"
  have lx: "97 \<le> (of_char x :: nat)" "(of_char x :: nat) \<le> 122"
    using snoc.prems(1) by (simp_all add: lowercase_def)
  have cxb: "0 \<le> cx" "cx < 26"
    using letter_code_bounds [OF lx] by (simp_all add: cx_def)
  have chr: "char_of (cx + 97) = x" by (simp add: cx_def)
  have val: "base26 (map (\<lambda>c. of_char c - 97) (xs @ [x])) = 26 * B + cx"
    by (simp add: base26_snoc B_def cx_def)
  have Bfacts: "0 \<le> B \<and> (B = 0 \<longrightarrow> 0 < cx) \<and>
                decode_loop B (chars @ [x]) = Some (chars @ [x] @ rev xs)"
  proof (cases "xs = []")
    case True
    then have "hd (xs @ [x]) = x" by simp
    with snoc.prems(3) have "cx \<noteq> 0" by (simp add: cx_def letter_a_code)
    with cxb True show ?thesis by (simp add: B_def base26_def decode_loop_zero)
  next
    case False
    then have "hd (xs @ [x]) = hd xs" by simp
    with snoc.prems have "lowercase xs" "hd xs \<noteq> CHR ''a''"
      by (simp_all add: lowercase_append)
    from snoc.IH [OF this(1) False this(2), of "chars @ [x]"] show ?thesis
      by (simp add: B_def)
  qed
  have pos: "0 < 26 * B + cx" using Bfacts cxb by (cases "B = 0") auto
  have dm: "(26 * B + cx) div 26 = B" "(26 * B + cx) mod 26 = cx" "cx mod 26 = cx"
    using cxb by simp_all
  have "decode_loop (26 * B + cx) chars = decode_loop B (chars @ [x])"
    using decode_loop_step [of "26 * B + cx" chars] pos by (simp add: dm chr)
  with Bfacts have "decode_loop (26 * B + cx) chars = Some (chars @ rev (xs @ [x]))"
    by simp
  with pos show ?case unfolding val by blast
qed

lemma decode_loop_positive:
  "0 < n \<Longrightarrow>
   \<exists>s. (\<forall>chars. decode_loop n chars = Some (chars @ rev s)) \<and>
       lowercase s \<and> s \<noteq> [] \<and> hd s \<noteq> CHR ''a'' \<and>
       base26 (map (\<lambda>c. of_char c - 97) s) = n"
proof (induction "nat n" arbitrary: n rule: less_induct)
  case less
  define c where "c = char_of (n mod 26 + 97 :: int)"
  have mb: "0 \<le> n mod 26" "n mod 26 < 26" by simp_all
  have lc: "97 \<le> (of_char c :: nat)" "(of_char c :: nat) \<le> 122"
    and cc: "(of_char c :: int) - 97 = n mod 26"
    using code_letter_bounds [OF mb] by (simp_all add: c_def)
  have step: "decode_loop n chars = decode_loop (n div 26) (chars @ [c])" for chars
    using decode_loop_step [of n chars] less.prems by (simp add: c_def)
  show ?case
  proof (cases "n div 26 = 0")
    case True
    with less.prems have small: "n mod 26 = n" by (simp add: div_eq_0_iff)
    have "c \<noteq> CHR ''a''" using cc small less.prems letter_a_code [of c] by simp
    moreover have "\<forall>chars. decode_loop n chars = Some (chars @ rev [c])"
      using step True by (simp add: decode_loop_zero)
    moreover have "lowercase [c]" using lc by (simp add: lowercase_def)
    moreover have "base26 (map (\<lambda>c. of_char c - 97) [c]) = n"
      using cc small by (simp add: base26_def)
    ultimately show ?thesis by (intro exI [of _ "[c]"]) simp
  next
    case False
    with less.prems have q: "0 < n div 26" "nat (n div 26) < nat n"
      by (simp_all add: pos_imp_zdiv_pos_iff div_eq_0_iff zdiv_mono2 nat_less_iff) 
    from less.hyps [OF q(2) q(1)] obtain s where s:
      "\<forall>chars. decode_loop (n div 26) chars = Some (chars @ rev s)"
      "lowercase s" "s \<noteq> []" "hd s \<noteq> CHR ''a''"
      "base26 (map (\<lambda>c. of_char c - 97) s) = n div 26"
      by blast
    have "\<forall>chars. decode_loop n chars = Some (chars @ rev (s @ [c]))"
      using step s(1) by simp
    moreover have "lowercase (s @ [c])" using s(2) lc by (simp add: lowercase_def)
    moreover have "hd (s @ [c]) \<noteq> CHR ''a''" using s(3,4) by simp
    moreover have "base26 (map (\<lambda>c. of_char c - 97) (s @ [c])) = n"
      using s(5) cc by (simp add: base26_snoc)
    ultimately show ?thesis by (intro exI [of _ "s @ [c]"]) simp
  qed
qed

lemma base26_lowercase_nonneg:
  "lowercase s \<Longrightarrow> 0 \<le> base26 (map (\<lambda>c. of_char c - 97) s)"
proof (induction s rule: rev_induct)
  case Nil
  show ?case by (simp add: base26_def)
next
  case (snoc x xs)
  then have "lowercase xs" "97 \<le> (of_char x :: nat)" "(of_char x :: nat) \<le> 122"
    by (simp_all add: lowercase_def)
  with snoc.IH letter_code_bounds(1) [of x] show ?case
    by (simp add: base26_snoc)
qed


lemma decode_encode_lowercase:
  assumes "lowercase s" "s \<noteq> []" "hd s \<noteq> CHR ''a''"
  shows "decode (encode s) = Some (PyStr s)"
proof -
  from decode_loop_encoded [OF assms, of "[]"]
  have "0 < encode s" "decode_loop (encode s) [] = Some (rev s)"
    by (simp_all add: encode_lowercase [OF assms(1)])
  then show ?thesis by (simp add: decode_def)
qed

lemma decode_positive:
  assumes "0 < n"
  shows "\<exists>s. decode n = Some (PyStr s) \<and> s \<noteq> [] \<and> lowercase s \<and> hd s \<noteq> CHR ''a'' \<and> encode s = n"
proof -
  from decode_loop_positive [OF assms] obtain s where s:
    "\<forall>chars. decode_loop n chars = Some (chars @ rev s)"
    "lowercase s" "s \<noteq> []" "hd s \<noteq> CHR ''a''"
    "base26 (map (\<lambda>c. of_char c - 97) s) = n"
    by blast
  from s(1) have "decode_loop n [] = Some (rev s)" by simp
  with assms have "decode n = Some (PyStr s)" by (simp add: decode_def)
  moreover have "encode s = n" using s(2,5) by (simp add: encode_lowercase)
  ultimately show ?thesis using s(2,3,4) by blast
qed

lemma decode_encode_only_if:
  assumes "lowercase s" "decode (encode s) = Some (PyStr s)"
  shows "s \<noteq> [] \<and> hd s \<noteq> CHR ''a''"
proof -
  have nn: "0 \<le> encode s"
    using base26_lowercase_nonneg [OF assms(1)] by (simp add: encode_lowercase [OF assms(1)])
  have "encode s \<noteq> 0" using assms(2) by (auto simp: decode_def)
  with nn have "0 < encode s" by simp
  from decode_positive [OF this] obtain t where
    "decode (encode s) = Some (PyStr t)" "t \<noteq> []" "hd t \<noteq> CHR ''a''" by blast
  with assms(2) show ?thesis by simp
qed

text \<open>
  Claim C4, amended. For every nonempty string \<open>s\<close> of lowercase letters whose first
  letter is not \<open>a\<close>, \<open>decode (encode s) = s\<close>, and for no other string of lowercase
  letters; moreover \<open>encode ''dog'' = 2398\<close> and \<open>decode 2398 = ''dog''\<close>.
\<close>

theorem decode_encode_round_trip:
  "(lowercase s \<longrightarrow>
      (decode (encode s) = Some (PyStr s)) = (s \<noteq> [] \<and> hd s \<noteq> CHR ''a'')) \<and>
   encode ''dog'' = 2398 \<and> decode 2398 = Some (PyStr ''dog'')"
proof -
  have "encode ''dog'' = 2398" by (simp add: encode_def lower_def)
  moreover have "decode 2398 = Some (PyStr ''dog'')" by code_simp
  moreover have "lowercase s \<longrightarrow>
      (decode (encode s) = Some (PyStr s)) = (s \<noteq> [] \<and> hd s \<noteq> CHR ''a'')"
    using decode_encode_lowercase [of s] decode_encode_only_if [of s] by blast
  ultimately show ?thesis by blast
qed

theorem decode_encode_round_trip_witness:
  "lowercase ''cat'' \<and> ''cat'' \<noteq> [] \<and> hd ''cat'' \<noteq> CHR ''a'' \<and>
   decode (encode ''cat'') = Some (PyStr ''cat'')"
proof -
  have l: "lowercase ''cat''" by (simp add: lowercase_def)
  show ?thesis using decode_encode_round_trip [of "''cat''"] l by simp
qed

text \<open>
  As stated (every nonempty lowercase string with a nonzero encoding) the claim fails
  at \<open>''ab''\<close>: its encoding is 1, which decodes to \<open>''b''\<close>; a leading \<open>a\<close> is the digit 0
  and is lost.
\<close>

theorem decode_encode_leading_a_counterexample:
  "lowercase ''ab'' \<and> ''ab'' \<noteq> [] \<and> encode ''ab'' \<noteq> 0 \<and>
   decode (encode ''ab'') = Some (PyStr ''b'') \<and> ''b'' \<noteq> ''ab''"
proof -
  have e: "encode ''ab'' = 1" by (simp add: encode_def lower_def)
  have d: "decode 1 = Some (PyStr ''b'')" by code_simp
  have l: "lowercase ''ab''" by (simp add: lowercase_def)
  show ?thesis using e d l by simp
qed

text \<open>
  Claim C10. For every integer \<open>n > 0\<close>, \<open>decode n\<close> returns a nonempty string of
  lowercase letters whose first letter is not \<open>a\<close>, and \<open>encode\<close> of it is \<open>n\<close>.
\<close>

theorem encode_decode_round_trip:
  "0 < n \<Longrightarrow>
   \<exists>s. decode n = Some (PyStr s) \<and> s \<noteq> [] \<and> lowercase s \<and> hd s \<noteq> CHR ''a'' \<and> encode s = n"
  by (rule decode_positive)

theorem encode_decode_round_trip_witness:
  "(0::int) < 2398 \<and>
   (\<exists>s. decode 2398 = Some (PyStr s) \<and> s \<noteq> [] \<and> lowercase s \<and> hd s \<noteq> CHR ''a'' \<and>
        encode s = 2398)"
  using encode_decode_round_trip [of 2398] by simp

section \<open>Primes: Euclid's lemma and Fermat's little theorem\<close>

text \<open>
  The number theory the RSA round trip and the Miller-Rabin test rest on, for
  \<open>is_prime\<close>: a prime dividing a product divides a factor, a prime \<open>p\<close> divides the
  binomial coefficients strictly inside row \<open>p\<close>, hence \<open>(a + 1) ^ p\<close> and \<open>a ^ p + 1\<close>
  agree modulo \<open>p\<close>, and \<open>a ^ p\<close> and \<open>a\<close> agree modulo \<open>p\<close> by induction on \<open>a\<close>.
\<close>

lemma is_prime_gt_1: "is_prime p \<Longrightarrow> 1 < p"
  by (simp add: is_prime_def)

lemma is_prime_divisor:
  assumes "is_prime p" "0 \<le> g" "g dvd p"
  shows "g = 1 \<or> g = p"
proof -
  from assms have p: "1 < p" by (simp add: is_prime_def)
  with assms(3) have "g \<noteq> 0" by auto
  with assms(2) have g1: "1 \<le> g" by simp
  have "g \<le> p" using assms(3) p by (simp add: zdvd_imp_le)
  show ?thesis
  proof (rule ccontr)
    assume "\<not> (g = 1 \<or> g = p)"
    with g1 \<open>g \<le> p\<close> have "g \<in> {2..<p}" by simp
    with assms(1,3) show False by (simp add: is_prime_def)
  qed
qed

lemma is_prime_coprime:
  assumes "is_prime p" "\<not> p dvd a"
  shows "coprime p a"
proof -
  have "gcd p a = 1 \<or> gcd p a = p"
    by (rule is_prime_divisor [OF assms(1)]) simp_all
  moreover have "gcd p a \<noteq> p" using assms(2) by (metis gcd_dvd2)
  ultimately show ?thesis by (simp add: coprime_iff_gcd_eq_1)
qed

lemma is_prime_dvd_mult:
  assumes "is_prime p" "p dvd a * b"
  shows "p dvd a \<or> p dvd b"
proof (cases "p dvd a")
  case True
  then show ?thesis by simp
next
  case False
  with assms(1) have "coprime p a" by (rule is_prime_coprime)
  then have "p dvd a * b \<longleftrightarrow> p dvd b" by (rule coprime_dvd_mult_right_iff)
  with assms(2) show ?thesis by simp
qed

lemma is_prime_dvd_binomial:
  assumes "is_prime p" "0 < k" "k < nat p"
  shows "p dvd int (nat p choose k)"
proof -
  have p: "1 < p" using assms(1) by (rule is_prime_gt_1)
  have "k * (nat p choose k) = nat p * ((nat p - 1) choose (k - 1))"
    using assms(2) by (rule times_binomial_minus1_eq)
  then have "int k * int (nat p choose k) = p * int ((nat p - 1) choose (k - 1))"
  proof -
    assume "k * (nat p choose k) = nat p * ((nat p - 1) choose (k - 1))"
    then have "int (k * (nat p choose k)) = int (nat p * ((nat p - 1) choose (k - 1)))"
      by (rule arg_cong)
    then show ?thesis using p by simp
  qed
  then have "p dvd int k * int (nat p choose k)" by simp
  then have "p dvd int k \<or> p dvd int (nat p choose k)"
    by (rule is_prime_dvd_mult [OF assms(1)])
  moreover have "\<not> p dvd int k"
    using assms(2,3) by (auto dest!: zdvd_imp_le)
  ultimately show ?thesis by simp
qed


lemma fermat_add_one:
  assumes "is_prime p"
  shows "((a + 1) ^ nat p) mod p = (a ^ nat p + 1) mod p"
proof -
  have p: "1 < p" using assms by (rule is_prime_gt_1)
  then obtain P' where P': "nat p = Suc P'" by (cases "nat p") simp_all
  define g where "g k = int (nat p choose k) * a ^ k" for k
  have "(a + 1) ^ nat p = (\<Sum>k\<le>nat p. g k)"
    by (simp add: binomial_ring [of a 1 "nat p"] g_def)
  also have "\<dots> = (\<Sum>k\<le>P'. g k) + g (Suc P')" by (simp add: P')
  also have "(\<Sum>k\<le>P'. g k) = g 0 + (\<Sum>k<P'. g (Suc k))" by (rule sum.atMost_shift)
  finally have split: "(a + 1) ^ nat p = g 0 + (\<Sum>k<P'. g (Suc k)) + g (Suc P')" .
  have "p dvd (\<Sum>k<P'. g (Suc k))"
  proof (rule dvd_sum)
    fix k assume "k \<in> {..<P'}"
    then have "0 < Suc k" "Suc k < nat p" by (simp_all add: P')
    with assms have "p dvd int (nat p choose Suc k)" by (rule is_prime_dvd_binomial)
    then show "p dvd g (Suc k)" unfolding g_def by (rule dvd_mult2)
  qed
  then obtain c where c: "(\<Sum>k<P'. g (Suc k)) = p * c" by auto
  have g0: "g 0 = 1" by (simp add: g_def)
  have gP: "g (Suc P') = a ^ nat p" by (simp add: g_def P' [symmetric])
  have "(a + 1) ^ nat p = (a ^ nat p + 1) + p * c"
    using split by (simp add: c g0 gP)
  then show ?thesis by simp
qed

lemma fermat_little:
  assumes "is_prime p"
  shows "0 \<le> a \<Longrightarrow> a ^ nat p mod p = a mod p"
proof (induction a rule: int_ge_induct)
  case base
  have "1 < p" using assms by (rule is_prime_gt_1)
  then have "0 < nat p" by simp
  then show ?case by (simp add: zero_power)
next
  case (step a)
  have "(a + 1) ^ nat p mod p = (a ^ nat p + 1) mod p"
    using assms by (rule fermat_add_one)
  also have "\<dots> = (a ^ nat p mod p + 1) mod p" by (simp add: mod_add_left_eq)
  also have "\<dots> = (a mod p + 1) mod p" by (simp only: step.IH)
  also have "\<dots> = (a + 1) mod p" by (simp add: mod_add_left_eq)
  finally show ?case .
qed

lemma fermat_coprime:
  assumes "is_prime p" "0 \<le> a" "\<not> p dvd a"
  shows "a ^ (nat p - 1) mod p = 1"
proof -
  have p: "1 < p" using assms(1) by (rule is_prime_gt_1)
  then have n: "nat p = Suc (nat p - 1)" by simp
  have "a ^ nat p mod p = a mod p" using assms(1,2) by (rule fermat_little)
  then have "p dvd a ^ nat p - a" by (simp add: mod_eq_dvd_iff)
  moreover have "a ^ nat p - a = a * (a ^ (nat p - 1) - 1)"
    by (subst n) (simp add: algebra_simps)
  ultimately have "p dvd a * (a ^ (nat p - 1) - 1)" by simp
  with assms(1) have "p dvd a \<or> p dvd a ^ (nat p - 1) - 1" by (rule is_prime_dvd_mult)
  with assms(3) have "p dvd a ^ (nat p - 1) - 1" by simp
  then have "a ^ (nat p - 1) mod p = 1 mod p" by (simp add: mod_eq_dvd_iff)
  with p show ?thesis by simp
qed


section \<open>The RSA round trip\<close>

lemma is_prime_power_cycle:
  assumes "is_prime p" "0 \<le> m"
  shows "m ^ (1 + K * (nat p - 1)) mod p = m mod p"
proof (cases "p dvd m")
  case True
  then have "p dvd m ^ (1 + K * (nat p - 1))" by simp
  with True show ?thesis by (simp add: mod_eq_0_iff_dvd)
next
  case False
  with assms have one: "m ^ (nat p - 1) mod p = 1" by (rule fermat_coprime)
  have p: "1 < p" using assms(1) by (rule is_prime_gt_1)
  have "m ^ (1 + K * (nat p - 1)) = m * (m ^ (nat p - 1)) ^ K"
    by (simp add: mult.commute [of K] power_mult)
  also have "\<dots> mod p = (m * ((m ^ (nat p - 1) mod p) ^ K mod p)) mod p"
    by (simp add: power_mod mod_mult_right_eq)
  also have "\<dots> = m mod p" using p one by simp
  finally show ?thesis .
qed

lemma is_prime_distinct_coprime:
  assumes "is_prime p" "is_prime q" "p \<noteq> q"
  shows "coprime p q"
proof (rule is_prime_coprime [OF assms(1)])
  show "\<not> p dvd q"
  proof
    assume "p dvd q"
    moreover have "1 < p" using assms(1) by (rule is_prime_gt_1)
    ultimately have "p = 1 \<or> p = q" by (intro is_prime_divisor [OF assms(2)]) simp_all
    with \<open>1 < p\<close> assms(3) show False by simp
  qed
qed

lemma rsa_exponent_cycle:
  assumes "is_prime p" "is_prime q" "p \<noteq> q"
    and "0 \<le> e" "0 \<le> d" "(e * d) mod ((p - 1) * (q - 1)) = 1"
    and "0 \<le> m" "m < p * q"
  shows "m ^ nat (e * d) mod (p * q) = m"
proof -
  have p: "1 < p" and q: "1 < q" using assms(1,2) by (simp_all add: is_prime_gt_1)
  define phi where "phi = (p - 1) * (q - 1)"
  have phi: "0 < phi" using p q by (simp add: phi_def)
  define k where "k = (e * d) div phi"
  have ed: "0 \<le> e * d" using assms(4,5) by simp
  then have k0: "0 \<le> k" using phi by (simp add: k_def pos_imp_zdiv_nonneg_iff)
  have "e * d = k * phi + (e * d) mod phi" by (simp add: k_def)
  then have edk: "e * d = 1 + k * phi" using assms(6) by (simp add: phi_def)
  have "int (nat (e * d)) = int (1 + nat k * ((nat p - 1) * (nat q - 1)))"
    using ed k0 p q by (simp add: edk phi_def)
  then have N: "nat (e * d) = 1 + nat k * ((nat p - 1) * (nat q - 1))"
    by (simp only: of_nat_eq_iff)
  have "nat (e * d) = 1 + (nat k * (nat q - 1)) * (nat p - 1)"
    unfolding N by (simp add: mult_ac)
  then have "m ^ nat (e * d) mod p = m mod p"
    using is_prime_power_cycle [OF assms(1,7), of "nat k * (nat q - 1)"] by simp
  then have dp: "p dvd m ^ nat (e * d) - m" by (simp add: mod_eq_dvd_iff)
  have "nat (e * d) = 1 + (nat k * (nat p - 1)) * (nat q - 1)"
    unfolding N by (simp add: mult_ac)
  then have "m ^ nat (e * d) mod q = m mod q"
    using is_prime_power_cycle [OF assms(2,7), of "nat k * (nat p - 1)"] by simp
  then have dq: "q dvd m ^ nat (e * d) - m" by (simp add: mod_eq_dvd_iff)
  have "coprime p q" using assms(1,2,3) by (rule is_prime_distinct_coprime)
  with dp dq have "p * q dvd m ^ nat (e * d) - m" by (rule divides_mult)
  then have "m ^ nat (e * d) mod (p * q) = m mod (p * q)" by (simp add: mod_eq_dvd_iff)
  with assms(7,8) show ?thesis by simp
qed

text \<open>
  Claim C1. For every keypair satisfying the RSA key invariants (\<open>p\<close> and \<open>q\<close> distinct
  primes, \<open>n = p * q\<close>, \<open>e * d\<close> congruent to 1 modulo \<open>(p - 1) * (q - 1)\<close>, the exponents
  \<open>e\<close> and \<open>d\<close> unsigned integers as the keys of the data model are) and for every integer
  \<open>m\<close> with \<open>0 \<le> m < n\<close>, encrypting \<open>m\<close> returns a value and decrypting that value
  returns \<open>m\<close>: \<open>rsa n d (rsa n e m) = m\<close>.
\<close>

theorem rsa_decrypt_encrypt:
  assumes "is_prime p" "is_prime q" "p \<noteq> q" "n = p * q"
    and "0 \<le> e" "0 \<le> d" "(e * d) mod ((p - 1) * (q - 1)) = 1"
    and "0 \<le> m" "m < n"
  shows "\<exists>c. rsa n e m = Inr c \<and> rsa n d c = Inr m"
proof -
  have p: "1 < p" and q: "1 < q" using assms(1,2) by (simp_all add: is_prime_gt_1)
  then have n: "0 < n" by (simp add: assms(4))
  have "0 < (p - 1) * (q - 1)" using p q by simp
  then have z: "(0::int) mod ((p - 1) * (q - 1)) \<noteq> 1" by simp
  have "e \<noteq> 0" "d \<noteq> 0" using assms(7) z by auto
  with assms(5,6) have e: "0 < e" and d: "0 < d" by simp_all
  have enc: "rsa n e m = Inr (m ^ nat e mod n)"
    using mod_exp_55_pos [of n e m] n e by (simp add: rsa_def)
  have "rsa n d (m ^ nat e mod n) = Inr ((m ^ nat e mod n) ^ nat d mod n)"
    using mod_exp_55_pos [of n d "m ^ nat e mod n"] n d by (simp add: rsa_def)
  also have "(m ^ nat e mod n) ^ nat d mod n = m ^ nat (e * d) mod n"
    using assms(5,6) by (simp add: power_mod power_mult nat_mult_distrib)
  also have "\<dots> = m"
    using rsa_exponent_cycle [OF assms(1,2,3,5,6,7,8)] assms(9) by (simp add: assms(4))
  finally show ?thesis using enc by simp
qed

lemma is_prime_61: "is_prime 61" by code_simp
lemma is_prime_53: "is_prime 53" by code_simp

theorem rsa_decrypt_encrypt_witness:
  "is_prime 61 \<and> is_prime 53 \<and> (61::int) \<noteq> 53 \<and> (3233::int) = 61 * 53 \<and>
   (0::int) \<le> 17 \<and> (0::int) \<le> 2753 \<and> (17 * 2753) mod ((61 - 1) * (53 - 1)) = (1::int) \<and>
   (0::int) \<le> 65 \<and> (65::int) < 3233 \<and>
   (\<exists>c. rsa 3233 17 65 = Inr c \<and> rsa 3233 2753 c = Inr 65)"
  using rsa_decrypt_encrypt [of 61 53 3233 17 2753 65] is_prime_61 is_prime_53 by simp

section \<open>Miller-Rabin never rejects a prime\<close>

text \<open>
  The halving loop returns on every positive number, with \<open>n_sub = 2 ^ j * m\<close> and \<open>m\<close>
  odd. For a prime \<open>n\<close> the only square roots of 1 modulo \<open>n\<close> are 1 and \<open>n - 1\<close>, and
  \<open>a ^ (n - 1)\<close> is 1 modulo \<open>n\<close> for every witness, so the chain of squarings that
  \<open>check\<close> walks through meets \<open>n - 1\<close> unless it starts at 1.
\<close>

lemma mr_decompose_positive:
  "0 < n_sub \<Longrightarrow>
   \<exists>m j. mr_decompose n_sub k = Some (m, k + int j) \<and> odd m \<and> 0 < m \<and> n_sub = 2 ^ j * m"
proof (induction "nat n_sub" arbitrary: n_sub k rule: less_induct)
  case less
  show ?case
  proof (cases "n_sub mod 2 = 0")
    case True
    with less.prems have h1: "0 < n_sub div 2" by presburger
    have "n_sub div 2 < n_sub" using less.prems by simp
    with h1 have h: "0 < n_sub div 2" "nat (n_sub div 2) < nat n_sub"
      by (simp_all add: nat_less_eq_zless)
    from less.hyps [OF h(2) h(1), of "k + 1"] obtain m j where mj:
      "mr_decompose (n_sub div 2) (k + 1) = Some (m, k + 1 + int j)"
      "odd m" "0 < m" "n_sub div 2 = 2 ^ j * m"
      by blast
    have "mr_decompose n_sub k = mr_decompose (n_sub div 2) (k + 1)"
      using True by (subst mr_decompose.simps) (simp add: drop_bit_eq_div)
    with mj(1) have "mr_decompose n_sub k = Some (m, k + int (Suc j))" by simp
    moreover have "n_sub = 2 ^ Suc j * m" using mj(4) True by auto
    ultimately show ?thesis using mj(2,3) by blast
  next
    case False
    then have "mr_decompose n_sub k = Some (n_sub, k + int 0)"
      by (subst mr_decompose.simps) simp
    moreover have "odd n_sub" using False by presburger
    ultimately show ?thesis using less.prems by (intro exI [of _ n_sub] exI [of _ 0]) simp
  qed
qed

lemma is_prime_sqrt_one:
  assumes "is_prime n" "0 \<le> x" "x < n" "x ^ 2 mod n = 1"
  shows "x = 1 \<or> x = n - 1"
proof -
  have n: "1 < n" using assms(1) by (rule is_prime_gt_1)
  from assms(4) n have "x ^ 2 mod n = 1 mod n" by simp
  then have "n dvd x ^ 2 - 1" by (simp add: mod_eq_dvd_iff)
  moreover have "x ^ 2 - 1 = (x - 1) * (x + 1)" by (simp add: power2_eq_square algebra_simps)
  ultimately have "n dvd (x - 1) * (x + 1)" by simp
  with assms(1) have "n dvd x - 1 \<or> n dvd x + 1" by (rule is_prime_dvd_mult)
  then show ?thesis
  proof
    assume d: "n dvd x - 1"
    show ?thesis
    proof (cases "x = 0")
      case True
      with d have "n dvd 1" by simp
      with n show ?thesis by simp
    next
      case False
      with assms(2) have "0 \<le> x - 1" by simp
      moreover have "x - 1 < n" using assms(3) by simp
      ultimately have "x - 1 = 0" using d by (metis zdvd_not_zless order_le_less)
      then show ?thesis by simp
    qed
  next
    assume d: "n dvd x + 1"
    have "0 < x + 1" using assms(2) by simp
    with d have "n \<le> x + 1" by (rule zdvd_imp_le)
    with assms(3) show ?thesis by simp
  qed
qed

lemma check_loop_prime:
  assumes "is_prime n"
  shows "0 \<le> x \<Longrightarrow> x < n \<Longrightarrow> x \<noteq> 1 \<Longrightarrow> x ^ (2 ^ Suc i) mod n = 1 \<Longrightarrow> check_loop i x n"
proof (induction i arbitrary: x)
  case 0
  then have "x ^ 2 mod n = 1" by simp
  with assms 0(1,2) have "x = 1 \<or> x = n - 1" by (rule is_prime_sqrt_one)
  with 0(3) show ?case by simp
next
  case (Suc i)
  have n: "1 < n" using assms by (rule is_prime_gt_1)
  show ?case
  proof (cases "x = n - 1")
    case True
    then show ?thesis by simp
  next
    case False
    define y where "y = x ^ 2 mod n"
    have y: "0 \<le> y" "y < n" using n by (simp_all add: y_def)
    have "y \<noteq> 1"
    proof
      assume "y = 1"
      then have "x ^ 2 mod n = 1" by (simp add: y_def)
      with assms Suc.prems(1,2) have "x = 1 \<or> x = n - 1" by (rule is_prime_sqrt_one)
      with False Suc.prems(3) show False by simp
    qed
    moreover have "y ^ (2 ^ Suc i) mod n = 1"
    proof -
      have "y ^ (2 ^ Suc i) mod n = (x ^ 2) ^ (2 ^ Suc i) mod n"
        by (simp only: y_def power_mod)
      also have "(x ^ 2) ^ (2 ^ Suc i) = x ^ (2 ^ Suc (Suc i))"
        by (simp add: power_mult [symmetric])
      finally show ?thesis using Suc.prems(4) by simp
    qed
    ultimately have "check_loop i y n" using y by (intro Suc.IH) simp_all
    with False show ?thesis by (simp add: y_def pow_mod_def)
  qed
qed

lemma check_prime:
  assumes "is_prime n" "0 < a" "a < n" "n - 1 = 2 ^ j * m" "0 < m" "0 < j"
  shows "check a (int j) m n"
proof -
  have n: "1 < n" using assms(1) by (rule is_prime_gt_1)
  define x where "x = a ^ nat m mod n"
  have x: "0 \<le> x" "x < n" using n by (simp_all add: x_def)
  have "\<not> n dvd a" using assms(2,3) by (auto dest: zdvd_imp_le)
  with assms(1,2) have f: "a ^ (nat n - 1) mod n = 1" by (intro fermat_coprime) simp_all
  have "int (nat n - 1) = int (2 ^ j * nat m)"
    using n assms(4,5) by simp
  then have e: "nat n - 1 = 2 ^ j * nat m" by (simp only: of_nat_eq_iff)
  obtain i where i: "j = Suc i" using assms(6) by (cases j) simp_all
  have "x ^ (2 ^ Suc i) mod n = (a ^ nat m) ^ (2 ^ j) mod n"
    by (simp only: x_def power_mod i)
  also have "(a ^ nat m) ^ (2 ^ j) = a ^ (nat n - 1)"
    using e by (simp add: power_mult [symmetric] mult.commute)
  finally have one: "x ^ (2 ^ Suc i) mod n = 1" using f by simp
  show ?thesis
  proof (cases "x = 1")
    case True
    then show ?thesis by (simp add: check_def pow_mod_def x_def)
  next
    case False
    with assms(1) x have "check_loop i x n" using one by (intro check_loop_prime)
    then show ?thesis using False by (simp add: check_def pow_mod_def x_def [symmetric] i)
  qed
qed

text \<open>
  What \<open>randint\<close> draws: a value of the range, and every value of the range for some
  value of the source.
\<close>

lemma randint_draws:
  "a \<le> b \<Longrightarrow> randint a b s = Inr (a + shd s mod (b - a + 1), stl s)"
  by (simp add: randint_def)

lemma randint_every_value:
  "a \<le> v \<Longrightarrow> v \<le> b \<Longrightarrow> randint a b ((v - a) ## s) = Inr (v, s)"
  by (simp add: randint_def)

lemma mr_rounds_prime:
  assumes "is_prime n" "2 < n" "n - 1 = 2 ^ j * m" "0 < m" "0 < j"
  shows "mr_rounds t n (int j) m s = Inr (True, sdrop t s)"
proof (induction t arbitrary: s)
  case 0
  show ?case by simp
next
  case (Suc t)
  define a where "a = 2 + shd s mod (n - 1 - 2 + 1)"
  have r: "randint 2 (n - 1) s = Inr (a, stl s)"
    using assms(2) by (simp add: randint_draws a_def)
  have "0 \<le> shd s mod (n - 2)" "shd s mod (n - 2) < n - 2" using assms(2) by simp_all
  then have "0 < a" "a < n" by (simp_all add: a_def)
  with assms have "check a (int j) m n" by (intro check_prime)
  with r show ?case by (simp add: Suc.IH)
qed

lemma is_prime_odd:
  assumes "is_prime n" "2 < n"
  shows "odd n"
proof -
  have "2 \<in> {2..<n}" using assms(2) by simp
  with assms(1) show ?thesis by (simp add: is_prime_def)
qed

lemma miller_rabin_prime:
  assumes "is_prime n" "2 < n"
  shows "miller_rabin n t s = Some (Inr (True, sdrop (nat t) s))"
proof -
  have "0 < n - 1" using assms(2) by simp
  from mr_decompose_positive [OF this, of 0] obtain m j where mj:
    "mr_decompose (n - 1) 0 = Some (m, int j)" "odd m" "0 < m" "n - 1 = 2 ^ j * m"
    by auto
  have "even (n - 1)" using is_prime_odd [OF assms] by simp
  with mj(2,4) have "0 < j" by (cases j) simp_all
  with assms mj(3,4) have "mr_rounds (nat t) n (int j) m s = Inr (True, sdrop (nat t) s)"
    by (intro mr_rounds_prime)
  with mj(1) show ?thesis by (simp add: miller_rabin_def)
qed

text \<open>Trial division up to the square root decides \<open>is_prime\<close>.\<close>

lemma is_prime_by_trial:
  assumes "1 < p" "0 \<le> r" "p < (r + 1) * (r + 1)" "\<forall>d \<in> {2..r}. \<not> d dvd p"
  shows "is_prime p"
proof -
  have "\<not> d dvd p" if d: "d \<in> {2..<p}" for d
  proof
    assume "d dvd p"
    then obtain c where c: "p = d * c" by auto
    have d2: "2 \<le> d" "d < p" using d by simp_all
    have c0: "0 < c" using assms(1) d2 c by (simp add: zero_less_mult_iff)
    have "c \<noteq> 1" using c d2 by auto
    with c0 have c2: "2 \<le> c" by simp
    have "d \<le> r \<or> c \<le> r"
    proof (rule ccontr)
      assume "\<not> (d \<le> r \<or> c \<le> r)"
      then have "r + 1 \<le> d" "r + 1 \<le> c" by simp_all
      then have "(r + 1) * (r + 1) \<le> d * c" using assms(2) by (intro mult_mono) simp_all
      with assms(3) c show False by simp
    qed
    then show False
    proof
      assume "d \<le> r"
      with d2 assms(4) \<open>d dvd p\<close> show False by simp
    next
      assume "c \<le> r"
      moreover have "c dvd p" using c by simp
      ultimately show False using c2 assms(4) by simp
    qed
  qed
  with assms(1) show ?thesis by (simp add: is_prime_def)
qed

lemma is_prime_7: "is_prime 7" by code_simp
lemma is_prime_11: "is_prime 11" by code_simp
lemma is_prime_13: "is_prime 13" by code_simp
lemma is_prime_97: "is_prime 97"
proof (rule is_prime_by_trial [where r = 9])
  show "\<forall>d \<in> {2..9::int}. \<not> d dvd 97"
    by (simp add: set_upto [symmetric] del: set_upto)
qed simp_all
lemma is_prime_7919: "is_prime 7919"
proof (rule is_prime_by_trial [where r = 88])
  show "\<forall>d \<in> {2..88::int}. \<not> d dvd 7919"
    by (simp add: set_upto [symmetric] del: set_upto)
qed simp_all

text \<open>
  Claim C9. For each \<open>n\<close> in \<open>{7, 11, 13, 97, 7919}\<close>, for every number of rounds \<open>t\<close> and
  every random source (hence every sequence of witnesses in \<open>[2, n - 1]\<close> it can produce),
  \<open>miller_rabin n t\<close> returns \<open>True\<close>, having consumed one value of the source for each
  round.
\<close>

theorem miller_rabin_known_primes:
  "n \<in> {7, 11, 13, 97, 7919} \<Longrightarrow> miller_rabin n t s = Some (Inr (True, sdrop (nat t) s))"
proof -
  assume "n \<in> {7, 11, 13, 97, 7919}"
  then have "is_prime n \<and> 2 < n"
    using is_prime_7 is_prime_11 is_prime_13 is_prime_97 is_prime_7919 by auto
  then show ?thesis by (simp add: miller_rabin_prime)
qed

theorem miller_rabin_known_primes_witness:
  "(7919::int) \<in> {7, 11, 13, 97, 7919} \<and>
   miller_rabin 7919 10 (sconst 5) = Some (Inr (True, sconst 5))"
  using miller_rabin_known_primes [of 7919 10 "sconst 5"] by simp

section \<open>Key generation: a failing inverse is not retried\<close>

text \<open>
  A run of \<open>key_gen\<close> on a concrete random source: the first candidate is the prime 3,
  the second the prime 917519, which is \<open>14 * 65537 + 1\<close>, so that 65537 divides
  \<open>(p - 1) * (q - 1)\<close>.
\<close>

lemma ball_int_step:
  "(\<forall>d \<in> {a..b::int}. P d) = (if b < a then True else P a \<and> (\<forall>d \<in> {a + 1..b}. P d))"
proof (cases "b < a")
  case True
  then show ?thesis by simp
next
  case False
  then have "{a..b} = insert a {a + 1..b}" by auto
  with False show ?thesis by simp
qed

lemma is_prime_3: "is_prime 3" by code_simp

lemma is_prime_917519: "is_prime 917519"
proof (rule is_prime_by_trial [where r = 957])
  show "\<forall>d \<in> {2..957::int}. \<not> d dvd 917519" by (simp add: ball_int_step)
qed simp_all

lemma sdrop_sconst: "sdrop k (sconst x) = sconst x"
  by (induction k) simp_all

lemma get_prime_prime:
  assumes "is_prime n" "2 < n" "n < 2 ^ 512" "shd s = n"
  shows "get_prime s = Some (Inr (Some n, sdrop 10 (stl s)))"
proof -
  have g: "getrandbits 512 s = (n, stl s)"
    using assms(2,3,4) by (simp add: getrandbits_def)
  have "odd n" using assms(1,2) by (rule is_prime_odd)
  then have o: "n AND 1 = 1" by (simp add: and_one_eq odd_iff_mod_2_eq_one)
  have "miller_rabin n 10 (stl s) = Some (Inr (True, sdrop (nat 10) (stl s)))"
    using assms(1,2) by (rule miller_rabin_prime)
  then show ?thesis by (simp add: get_prime_def g o)
qed

lemma retry_prime_done:
  "v \<noteq> 0 \<Longrightarrow> retry_prime (Some v) s = Some (Inr (v, s))"
  by (subst retry_prime.simps) (simp add: py_not_def)

lemma key_gen_primes_example:
  "key_gen_primes (3 ## sconst 917519) = Some (Inr (3, 917519, sconst 917519))"
proof -
  have p: "get_prime (3 ## sconst 917519) = Some (Inr (Some 3, sconst 917519))"
    using get_prime_prime [OF is_prime_3, of "3 ## sconst 917519"] by (simp add: sdrop_sconst)
  have q: "get_prime (sconst 917519) = Some (Inr (Some 917519, sconst 917519))"
    using get_prime_prime [OF is_prime_917519, of "sconst 917519"] by (simp add: sdrop_sconst)
  show ?thesis by (simp add: key_gen_primes_def p q retry_prime_done)
qed

lemma key_gen_not_coprime:
  assumes "key_gen_primes s = Some (Inr (p, q, s'))" "gcd 65537 ((p - 1) * (q - 1)) \<noteq> 1"
  shows "key_gen s = Some (Inl ValueError)"
  using assms(1) mod_inv_not_coprime [OF assms(2)] by (simp add: key_gen_def Let_def)

lemma gcd_example: "gcd (65537::int) ((3 - 1) * (917519 - 1)) \<noteq> 1"
proof -
  have "(65537::int) dvd (3 - 1) * (917519 - 1)" by simp
  then have "gcd (65537::int) ((3 - 1) * (917519 - 1)) = 65537"
    by (simp add: gcd_proj1_iff)
  then show ?thesis by simp
qed

text \<open>
  Claim C8, amended. Inside key generation, when the two primes \<open>p\<close> and \<open>q\<close> are found
  and \<open>mod_inv 65537 ((p - 1) * (q - 1))\<close> fails because 65537 is not coprime to
  \<open>(p - 1) * (q - 1)\<close>, \<open>key_gen\<close> raises the \<open>ValueError\<close> of \<open>mod_inv\<close> to its caller:
  it does not regenerate \<open>q\<close>, it has no retry count, and it raises no other error.
\<close>

theorem key_gen_propagates_mod_inv_failure:
  "key_gen_primes s = Some (Inr (p, q, s')) \<Longrightarrow> gcd 65537 ((p - 1) * (q - 1)) \<noteq> 1 \<Longrightarrow>
   key_gen s = Some (Inl ValueError)"
  by (rule key_gen_not_coprime)

theorem key_gen_propagates_mod_inv_failure_witness:
  "key_gen_primes (3 ## sconst 917519) = Some (Inr (3, 917519, sconst 917519)) \<and>
   gcd (65537::int) ((3 - 1) * (917519 - 1)) \<noteq> 1 \<and>
   key_gen (3 ## sconst 917519) = Some (Inl ValueError)"
  using key_gen_propagates_mod_inv_failure [OF key_gen_primes_example gcd_example]
    key_gen_primes_example gcd_example by simp

text \<open>
  As stated (the failure is retried, not propagated) the claim fails: on the source
  that yields the candidates 3 and 917519, \<open>mod_inv\<close> fails and \<open>key_gen\<close> ends with
  its \<open>ValueError\<close>.
\<close>

theorem key_gen_no_retry_counterexample:
  "mod_inv 65537 ((3 - 1) * (917519 - 1)) = Inl ValueError \<and>
   key_gen (3 ## sconst 917519) = Some (Inl ValueError)"
  using key_gen_not_coprime [OF key_gen_primes_example gcd_example]
    mod_inv_not_coprime [OF gcd_example] by simp

end
